theory Spec2Isabelle
  imports Complex_Main "HOL-Library.Multiset"
begin

section \<open>The graph capability interfaces\<close>

text \<open>
  Nodes are Go \<open>int\<close> identifiers. The algorithms only compare them for equality and use
  them as map keys, so they are modelled as mathematical integers. Edge weights are
  \<open>float64\<close>; the algorithms only compare them with \<open><\<close>, and the weights are read as real
  numbers (no NaN).
\<close>

type_synonym node = int
type_synonym cost_fn = "node \<Rightarrow> node \<Rightarrow> real"

text \<open>
  The interface \<open>Graph\<close>: one field for each method. The optional capability \<open>Coster\<close>
  (tested in the source by the type assertion \<open>graph.(Coster)\<close>) is the field \<open>Coster\<close>:
  \<open>None\<close> when the graph's type has no \<open>Cost\<close> method, \<open>Some c\<close> when \<open>c\<close> is that method.
\<close>

record graph =
  Successors :: "node \<Rightarrow> node list"
  IsSuccessor :: "node \<Rightarrow> node \<Rightarrow> bool"
  Predecessors :: "node \<Rightarrow> node list"
  IsPredecessor :: "node \<Rightarrow> node \<Rightarrow> bool"
  IsAdjacent :: "node \<Rightarrow> node \<Rightarrow> bool"
  NodeExists :: "node \<Rightarrow> bool"
  Degree :: "node \<Rightarrow> int"
  EdgeList :: "(node \<times> node) list"
  NodeList :: "node list"
  IsDirected :: bool
  Coster :: "cost_fn option"

text \<open>The struct \<open>WeightedEdge\<close>.\<close>

record WeightedEdge =
  Edge :: "node \<times> node"
  Weight :: real

text \<open>
  What can go wrong at run time: a Go panic (an index out of range, a failed type
  assertion, a nil dereference), or the model's recursion budget running out, which
  stands for a computation that does not return.
\<close>

datatype error = Panic | OutOfFuel

section \<open>IsPath\<close>

text \<open>The loop \<open>for i := 0; i < len(path)-1; i++\<close> of \<open>IsPath\<close>, started at index \<open>i\<close>.\<close>

function IsPath_loop :: "nat \<Rightarrow> node list \<Rightarrow> graph \<Rightarrow> bool" where
  "IsPath_loop i path g =
     (if i < length path - 1
      then (if \<not> IsSuccessor g (path ! i) (path ! (i + 1)) then False
            else IsPath_loop (i + 1) path g)
      else True)"
  by pat_completeness auto
termination
  by (relation "measure (\<lambda>(i, path, g). length path - 1 - i)") auto

declare IsPath_loop.simps [simp del]

text \<open>A nil slice and an empty slice both have length 0: both are the empty list.\<close>

definition IsPath :: "node list \<Rightarrow> graph \<Rightarrow> bool" where
  "IsPath path g =
     (if path = [] \<or> length path = 0 then True
      else if length path = 1 then NodeExists g (path ! 0)
      else IsPath_loop 0 path g)"

section \<open>A list-backed graph\<close>

text \<open>
  The repository's concrete graph types are not part of the source file. The examples
  below need some implementation of the interface: \<open>list_graph\<close> answers every method
  from a node list and an edge list, the way the interface comments describe the methods.
\<close>

definition list_graph :: "node list \<Rightarrow> (node \<times> node) list \<Rightarrow> bool \<Rightarrow> cost_fn option \<Rightarrow> graph" where
  "list_graph ns es dir c =
     \<lparr> Successors = (\<lambda>n. map snd (filter (\<lambda>e. fst e = n) es)),
       IsSuccessor = (\<lambda>a b. (a, b) \<in> set es),
       Predecessors = (\<lambda>n. map fst (filter (\<lambda>e. snd e = n) es)),
       IsPredecessor = (\<lambda>a b. (b, a) \<in> set es),
       IsAdjacent = (\<lambda>a b. (a, b) \<in> set es \<or> (b, a) \<in> set es),
       NodeExists = (\<lambda>n. n \<in> set ns),
       Degree = (\<lambda>n. int (length (filter (\<lambda>e. fst e = n) es))
                      + int (length (filter (\<lambda>e. snd e = n) es))),
       EdgeList = es,
       NodeList = ns,
       IsDirected = dir,
       Coster = c \<rparr>"

text \<open>The graph with every edge turned around: successors and predecessors exchanged.\<close>

definition reverse_graph :: "graph \<Rightarrow> graph" where
  "reverse_graph g =
     g \<lparr> Successors := Predecessors g,
         Predecessors := Successors g,
         IsSuccessor := IsPredecessor g,
         IsPredecessor := IsSuccessor g,
         EdgeList := map (\<lambda>e. (snd e, fst e)) (EdgeList g) \<rparr>"

section \<open>Tarjan\<close>

text \<open>
  Modelled from the spec: the stack and the set container are external collaborators
  (\<open>Push\<close>, \<open>Pop() -> (value, ok)\<close>; add, remove, contains, cardinality, copy, union,
  intersection, equality). The stack is a list with its top at the head; a set of nodes
  is a HOL set. \<open>Pop\<close> on the empty stack yields no value, and the type assertion
  \<open>v.(int)\<close> on it panics.

  The variables that the closure \<open>strongconnect\<close> shares with \<open>Tarjan\<close>:
\<close>

record tarjan_state =
  index :: int
  vStack :: "node list"
  stackSet :: "node set"
  lowlinks :: "node \<rightharpoonup> int"
  indices :: "node \<rightharpoonup> int"

definition tarjan_init :: tarjan_state where
  "tarjan_init =
     \<lparr> index = 0, vStack = [], stackSet = {}, lowlinks = Map.empty, indices = Map.empty \<rparr>"

text \<open>Reading a Go map at a missing key gives the zero value.\<close>

definition lookup0 :: "(node \<rightharpoonup> int) \<Rightarrow> node \<Rightarrow> int" where
  "lookup0 m k = (case m k of None \<Rightarrow> 0 | Some v \<Rightarrow> v)"

text \<open>Lines 85 to 90: number the node, push it.\<close>

definition enter :: "node \<Rightarrow> tarjan_state \<Rightarrow> tarjan_state" where
  "enter node s =
     s \<lparr> indices := (indices s)(node \<mapsto> index s),
         lowlinks := (lowlinks s)(node \<mapsto> index s),
         index := index s + 1,
         vStack := node # vStack s,
         stackSet := insert node (stackSet s) \<rparr>"

text \<open>
  Lines 95 and 97: \<open>lowlinks[node] = min(lowlinks[node], lowlinks[succ])\<close>. The source
  goes through \<open>float64\<close> and \<open>math.Min\<close>, which is exact on these small integers.
\<close>

definition tighten :: "node \<Rightarrow> node \<Rightarrow> tarjan_state \<Rightarrow> tarjan_state" where
  "tighten node succ s =
     s \<lparr> lowlinks := (lowlinks s)(node \<mapsto>
           min (lookup0 (lowlinks s) node) (lookup0 (lowlinks s) succ)) \<rparr>"

text \<open>
  Lines 103 to 110: pop the stack into \<open>scc\<close> down to and including \<open>node\<close>. The result
  is the component, the remaining stack and the remaining on-stack set.
\<close>

fun pop_scc :: "node \<Rightarrow> node list \<Rightarrow> node set \<Rightarrow> node list
    \<Rightarrow> error + (node list \<times> node list \<times> node set)" where
  "pop_scc node [] sset scc = Inl Panic"
| "pop_scc node (v # st) sset scc =
     (if v = node then Inr (scc @ [v], st, sset - {v})
      else pop_scc node st (sset - {v}) (scc @ [v]))"

text \<open>
  \<open>strongconnect\<close> and its loop over the successors. The result of the nested call on
  line 94 is dropped, as in the source. A \<open>nil\<close> result is \<open>None\<close>. The first argument
  bounds the depth of the recursion.
\<close>

fun strongconnect :: "nat \<Rightarrow> graph \<Rightarrow> node \<Rightarrow> tarjan_state
      \<Rightarrow> error + (node list option \<times> tarjan_state)"
  and strongconnect_succs :: "nat \<Rightarrow> graph \<Rightarrow> node \<Rightarrow> node list \<Rightarrow> tarjan_state
      \<Rightarrow> error + tarjan_state" where
  "strongconnect 0 g node s = Inl OutOfFuel"
| "strongconnect (Suc fuel) g node s =
     (case strongconnect_succs fuel g node (Successors g node) (enter node s) of
        Inl e \<Rightarrow> Inl e
      | Inr s2 \<Rightarrow>
          if lookup0 (lowlinks s2) node = lookup0 (indices s2) node
          then (case pop_scc node (vStack s2) (stackSet s2) [] of
                  Inl e \<Rightarrow> Inl e
                | Inr (scc, st, sset) \<Rightarrow> Inr (Some scc, s2 \<lparr> vStack := st, stackSet := sset \<rparr>))
          else Inr (None, s2))"
| "strongconnect_succs fuel g node [] s = Inr s"
| "strongconnect_succs fuel g node (succ # rest) s =
     (if indices s succ = None
      then (case strongconnect fuel g succ s of
              Inl e \<Rightarrow> Inl e
            | Inr (dropped, s1) \<Rightarrow> strongconnect_succs fuel g node rest (tighten node succ s1))
      else if succ \<in> stackSet s
      then strongconnect_succs fuel g node rest (tighten node succ s)
      else strongconnect_succs fuel g node rest s)"

text \<open>Lines 116 to 120: the driver over the node list.\<close>

fun Tarjan_loop :: "nat \<Rightarrow> graph \<Rightarrow> node list \<Rightarrow> tarjan_state \<Rightarrow> node list option list
    \<Rightarrow> error + (node list option list \<times> tarjan_state)" where
  "Tarjan_loop fuel g [] s sccs = Inr (sccs, s)"
| "Tarjan_loop fuel g (n # ns) s sccs =
     (if indices s n = None
      then (case strongconnect fuel g n s of
              Inl e \<Rightarrow> Inl e
            | Inr (scc, s1) \<Rightarrow> Tarjan_loop fuel g ns s1 (sccs @ [scc]))
      else Tarjan_loop fuel g ns s sccs)"

definition Tarjan :: "nat \<Rightarrow> graph \<Rightarrow> error + node list option list" where
  "Tarjan fuel g =
     (case Tarjan_loop fuel g (NodeList g) tarjan_init [] of
        Inl e \<Rightarrow> Inl e
      | Inr (sccs, s) \<Rightarrow> Inr sccs)"

section \<open>The mutable destination graph\<close>

text \<open>
  Modelled from the spec: the implementation of the interface \<open>MutableGraph\<close> is an
  external collaborator. The model follows the comments on the interface's methods:
  a graph is its nodes, its edges with their costs, and its directedness; an undirected
  graph keeps the reciprocal of every edge (\<open>AddNode\<close>, \<open>RemoveEdge\<close>); \<open>AddNode\<close> adds
  the successors that do not exist yet; \<open>AddEdge\<close> creates \<open>node2\<close> when it is absent;
  \<open>SetEdgeCost\<close> sets \<open>node1->node2\<close>, and the reciprocal in an undirected graph;
  \<open>EmptyGraph\<close> removes all nodes and edges. The interface leaves the cost of a new edge
  to the graph: the model takes 0. Prim and Kruskal set the cost right after adding the
  edge. \<open>AddEdge\<close> from a node that does not exist is undefined by the interface; Prim and
  Kruskal test \<open>NodeExists\<close> first.
\<close>

record mgraph =
  mg_nodes :: "node list"
  mg_edges :: "((node \<times> node) \<times> real) list"
  mg_directed :: bool

definition EmptyGraph :: "mgraph \<Rightarrow> mgraph" where
  "EmptyGraph d = d \<lparr> mg_nodes := [], mg_edges := [] \<rparr>"

definition SetDirected :: "bool \<Rightarrow> mgraph \<Rightarrow> mgraph" where
  "SetDirected b d = d \<lparr> mg_directed := b \<rparr>"

definition dst_NodeExists :: "mgraph \<Rightarrow> node \<Rightarrow> bool" where
  "dst_NodeExists d n \<longleftrightarrow> n \<in> set (mg_nodes d)"

definition ensure_node :: "node \<Rightarrow> mgraph \<Rightarrow> mgraph" where
  "ensure_node n d = (if n \<in> set (mg_nodes d) then d else d \<lparr> mg_nodes := mg_nodes d @ [n] \<rparr>)"

definition ensure_edge :: "node \<times> node \<Rightarrow> mgraph \<Rightarrow> mgraph" where
  "ensure_edge e d =
     (if e \<in> fst ` set (mg_edges d) then d else d \<lparr> mg_edges := mg_edges d @ [(e, 0)] \<rparr>)"

definition AddEdge :: "node \<Rightarrow> node \<Rightarrow> mgraph \<Rightarrow> mgraph" where
  "AddEdge node1 node2 d =
     (let d1 = ensure_edge (node1, node2) (ensure_node node2 d)
      in if mg_directed d then d1 else ensure_edge (node2, node1) d1)"

definition AddNode :: "node \<Rightarrow> node list \<Rightarrow> mgraph \<Rightarrow> mgraph" where
  "AddNode n successors d = fold (\<lambda>succ. AddEdge n succ) successors (ensure_node n d)"

definition SetEdgeCost :: "node \<Rightarrow> node \<Rightarrow> real \<Rightarrow> mgraph \<Rightarrow> mgraph" where
  "SetEdgeCost node1 node2 cost d =
     d \<lparr> mg_edges := map (\<lambda>(e, w).
            if e = (node1, node2) \<or> (\<not> mg_directed d \<and> e = (node2, node1)) then (e, cost)
            else (e, w)) (mg_edges d) \<rparr>"

section \<open>Sorting the weighted edges\<close>

text \<open>
  Prim and Kruskal sort with \<open>sort.Sort\<close> of Go's standard library, through the methods
  \<open>Len\<close>, \<open>Less\<close> (\<open>el[i].Weight < el[j].Weight\<close>) and \<open>Swap\<close> of \<open>edgeSorter\<close>. The
  library is not part of the repository, and its algorithm has changed between Go
  releases, so the algorithms take the sort as a parameter. What the library documents
  is \<open>sort_contract\<close>: the result is a rearrangement of the input in which no element is
  \<open>Less\<close> than an element before it. Its documentation adds that the sort is not
  guaranteed to be stable.
\<close>

type_synonym sorter = "WeightedEdge list \<Rightarrow> WeightedEdge list"

definition Less :: "WeightedEdge \<Rightarrow> WeightedEdge \<Rightarrow> bool" where
  "Less a b \<longleftrightarrow> Weight a < Weight b"


text \<open>A sort is stable when elements that compare equal keep their order.\<close>

definition stable_on :: "sorter \<Rightarrow> WeightedEdge list \<Rightarrow> bool" where
  "stable_on srt xs \<longleftrightarrow>
     (\<forall>w. filter (\<lambda>e. Weight e = w) (srt xs) = filter (\<lambda>e. Weight e = w) xs)"

text \<open>
  Two sorts that meet the contract. \<open>insertionSort\<close> is the library's function of that
  name: each element in turn moves left while it is \<open>Less\<close> than its left neighbour; the
  sorted prefix is kept reversed in the accumulator. \<open>shellPass\<close> is the pass with gap 6
  and \<open>shellSort\<close> that pass followed by \<open>insertionSort\<close>: what \<open>sort.Sort\<close> does on a
  slice of at most 12 elements in the Go releases 1.7 to 1.18.
\<close>

fun bubble :: "WeightedEdge \<Rightarrow> WeightedEdge list \<Rightarrow> WeightedEdge list" where
  "bubble x [] = [x]"
| "bubble x (y # ys) = (if Less x y then y # bubble x ys else x # y # ys)"

definition insertionSort :: sorter where
  "insertionSort xs = rev (foldl (\<lambda>acc x. bubble x acc) [] xs)"

function shellPass :: "nat \<Rightarrow> WeightedEdge list \<Rightarrow> WeightedEdge list" where
  "shellPass i xs =
     (if i < length xs \<and> 6 \<le> i
      then shellPass (i + 1)
             (if Less (xs ! i) (xs ! (i - 6)) then xs[i := xs ! (i - 6), i - 6 := xs ! i] else xs)
      else xs)"
  by pat_completeness auto
termination
  by (relation "measure (\<lambda>(i, xs). length xs - i)") auto

declare shellPass.simps [simp del]

definition shellSort :: sorter where
  "shellSort xs = insertionSort (shellPass 6 xs)"

section \<open>Prim\<close>

text \<open>
  Modelled from the spec: \<open>UniformCost\<close> is declared outside the source file; it is the
  uniform-cost fallback, every edge weight = 1.
\<close>

definition UniformCost :: cost_fn where
  "UniformCost a b = 1"

text \<open>Lines 174 to 179: the edges from the destination into the outstanding nodes.\<close>

definition candidates :: "cost_fn \<Rightarrow> (node \<times> node) list \<Rightarrow> mgraph \<Rightarrow> node set
    \<Rightarrow> WeightedEdge list" where
  "candidates Cost edgeList dst remainingNodes =
     map (\<lambda>edge. \<lparr> Edge = edge, Weight = Cost (fst edge) (snd edge) \<rparr>)
       (filter (\<lambda>edge. dst_NodeExists dst (fst edge) \<and> snd edge \<in> remainingNodes) edgeList)"

text \<open>Lines 184 to 189, shared by both algorithms in the source as repeated text.\<close>

definition add_to_dst :: "WeightedEdge \<Rightarrow> mgraph \<Rightarrow> mgraph" where
  "add_to_dst myEdge dst =
     SetEdgeCost (fst (Edge myEdge)) (snd (Edge myEdge)) (Weight myEdge)
       (if \<not> dst_NodeExists dst (fst (Edge myEdge))
        then AddNode (fst (Edge myEdge)) [snd (Edge myEdge)] dst
        else AddEdge (fst (Edge myEdge)) (snd (Edge myEdge)) dst)"

text \<open>
  The loop of lines 173 to 192. \<open>edgeWeights[0]\<close> on an empty slice is an index out of
  range. The first argument bounds the number of iterations.
\<close>

fun Prim_loop :: "nat \<Rightarrow> sorter \<Rightarrow> cost_fn \<Rightarrow> (node \<times> node) list \<Rightarrow> mgraph \<Rightarrow> node set
    \<Rightarrow> error + mgraph" where
  "Prim_loop fuel srt Cost edgeList dst remainingNodes =
     (if card remainingNodes \<noteq> 0
      then (case fuel of
              0 \<Rightarrow> Inl OutOfFuel
            | Suc fuel' \<Rightarrow>
                (case srt (candidates Cost edgeList dst remainingNodes) of
                   [] \<Rightarrow> Inl Panic
                 | myEdge # others \<Rightarrow>
                     Prim_loop fuel' srt Cost edgeList (add_to_dst myEdge dst)
                       (remainingNodes - {snd (Edge myEdge)})))
      else Inr dst)"

declare Prim_loop.simps [simp del]

text \<open>Lines 157 to 193: \<open>Prim\<close> after the cost function is resolved.\<close>

definition Prim_body :: "nat \<Rightarrow> sorter \<Rightarrow> mgraph \<Rightarrow> graph \<Rightarrow> cost_fn \<Rightarrow> error + mgraph" where
  "Prim_body fuel srt dst g Cost =
     (let dst1 = SetDirected False (EmptyGraph dst)
      in case NodeList g of
           [] \<Rightarrow> Inr dst1
         | n0 # others \<Rightarrow>
             Prim_loop fuel srt Cost (EdgeList g) (AddNode n0 [] dst1) (set others))"

text \<open>\<open>Prim\<close>: lines 150 to 156 resolve the cost function (\<open>None\<close> is a nil argument).\<close>

definition Prim :: "nat \<Rightarrow> sorter \<Rightarrow> mgraph \<Rightarrow> graph \<Rightarrow> cost_fn option \<Rightarrow> error + mgraph" where
  "Prim fuel srt dst g Cost =
     Prim_body fuel srt dst g
       (case Cost of
          None \<Rightarrow> (case Coster g of Some c \<Rightarrow> c | None \<Rightarrow> UniformCost)
        | Some c \<Rightarrow> c)"

section \<open>Kruskal\<close>

text \<open>
  Modelled from the spec: the disjoint-set primitive is an external collaborator with
  \<open>MakeSet(id)\<close>, \<open>Find(id) -> representative\<close> and \<open>Union(rep1, rep2)\<close>. The model maps
  every element to the representative of its set. \<open>Find\<close> of an element that is in no set
  has no representative (\<open>None\<close>). \<open>Union\<close> moves every element of the second set to the
  first; with a missing representative it changes nothing.
\<close>

type_synonym disjoint_set = "node \<rightharpoonup> node"

definition MakeSet :: "node \<Rightarrow> disjoint_set \<Rightarrow> disjoint_set" where
  "MakeSet n ds = ds(n \<mapsto> n)"

definition Find :: "disjoint_set \<Rightarrow> node \<Rightarrow> node option" where
  "Find ds n = ds n"

definition Union_ds :: "node option \<Rightarrow> node option \<Rightarrow> disjoint_set \<Rightarrow> disjoint_set" where
  "Union_ds s1 s2 ds =
     (case (s1, s2) of
        (Some r1, Some r2) \<Rightarrow> (\<lambda>x. if ds x = Some r2 then Some r1 else ds x)
      | _ \<Rightarrow> ds)"

text \<open>Lines 211 to 216: the weighted edges, sorted.\<close>

definition Kruskal_edgeWeights :: "sorter \<Rightarrow> cost_fn \<Rightarrow> (node \<times> node) list \<Rightarrow> WeightedEdge list" where
  "Kruskal_edgeWeights srt Cost edgeList =
     srt (map (\<lambda>edge. \<lparr> Edge = edge, Weight = Cost (fst edge) (snd edge) \<rparr>) edgeList)"

text \<open>Lines 223 to 233: the scan of the sorted edges.\<close>

fun Kruskal_loop :: "WeightedEdge list \<Rightarrow> disjoint_set \<Rightarrow> mgraph \<Rightarrow> mgraph" where
  "Kruskal_loop [] ds dst = dst"
| "Kruskal_loop (edge # others) ds dst =
     (let s1 = Find ds (fst (Edge edge)); s2 = Find ds (snd (Edge edge))
      in if s1 \<noteq> s2
         then Kruskal_loop others (Union_ds s1 s2 ds) (add_to_dst edge dst)
         else Kruskal_loop others ds dst)"

text \<open>Lines 207 to 233: \<open>Kruskal\<close> after the cost function is resolved.\<close>

definition Kruskal_body :: "sorter \<Rightarrow> mgraph \<Rightarrow> graph \<Rightarrow> cost_fn \<Rightarrow> mgraph" where
  "Kruskal_body srt dst g Cost =
     (let dst1 = SetDirected False (EmptyGraph dst);
          edgeWeights = Kruskal_edgeWeights srt Cost (EdgeList g);
          ds = fold MakeSet (NodeList g) Map.empty
      in Kruskal_loop edgeWeights ds dst1)"

text \<open>\<open>Kruskal\<close>: lines 200 to 206 resolve the cost function.\<close>

definition Kruskal :: "sorter \<Rightarrow> mgraph \<Rightarrow> graph \<Rightarrow> cost_fn option \<Rightarrow> mgraph" where
  "Kruskal srt dst g Cost =
     Kruskal_body srt dst g
       (case Cost of
          None \<Rightarrow> (case Coster g of Some c \<Rightarrow> c | None \<Rightarrow> UniformCost)
        | Some c \<Rightarrow> c)"

section \<open>Dominators and PostDominators\<close>

text \<open>
  The map \<open>dominators\<close>. A missing key reads as a nil \<open>*Set\<close>; the set container is
  not part of the source, and using a nil set is modelled as a nil dereference.
\<close>

type_synonym dom_map = "node \<rightharpoonup> node set"

text \<open>Lines 249 to 256.\<close>

fun Dominators_init :: "node \<Rightarrow> node set \<Rightarrow> node list \<Rightarrow> dom_map \<Rightarrow> dom_map" where
  "Dominators_init start allNodes [] dominators = dominators"
| "Dominators_init start allNodes (node # others) dominators =
     Dominators_init start allNodes others
       (dominators(node \<mapsto> (if node = start then insert start {} else allNodes)))"

text \<open>Lines 269 to 271: \<open>tmp.Intersection(tmp, dominators[pred])\<close> for each further predecessor.\<close>

fun intersect_all :: "dom_map \<Rightarrow> node list \<Rightarrow> node set \<Rightarrow> error + node set" where
  "intersect_all dominators [] tmp = Inr tmp"
| "intersect_all dominators (pred # others) tmp =
     (case dominators pred of
        None \<Rightarrow> Inl Panic
      | Some ds \<Rightarrow> intersect_all dominators others (tmp \<inter> ds))"

text \<open>Lines 260 to 281: one pass over the node list; the flag is \<open>somethingChanged\<close>.\<close>

fun Dominators_pass :: "node \<Rightarrow> graph \<Rightarrow> node list \<Rightarrow> dom_map \<Rightarrow> bool
    \<Rightarrow> error + (dom_map \<times> bool)" where
  "Dominators_pass start g [] dominators somethingChanged = Inr (dominators, somethingChanged)"
| "Dominators_pass start g (node # others) dominators somethingChanged =
     (if node = start then Dominators_pass start g others dominators somethingChanged
      else case Predecessors g node of
             [] \<Rightarrow> Dominators_pass start g others dominators somethingChanged
           | p0 # preds \<Rightarrow>
               (case dominators p0 of
                  None \<Rightarrow> Inl Panic
                | Some s0 \<Rightarrow>
                    (case intersect_all dominators preds s0 of
                       Inl e \<Rightarrow> Inl e
                     | Inr tmp \<Rightarrow>
                         (case dominators node of
                            None \<Rightarrow> Inl Panic
                          | Some cur \<Rightarrow>
                              if insert node {} \<union> tmp \<noteq> cur
                              then Dominators_pass start g others
                                     (dominators(node \<mapsto> insert node {} \<union> tmp)) True
                              else Dominators_pass start g others dominators somethingChanged))))"

text \<open>
  Lines 258 to 282: passes until one changes nothing. The first argument bounds the
  number of passes.
\<close>

fun Dominators_loop :: "nat \<Rightarrow> node \<Rightarrow> graph \<Rightarrow> dom_map \<Rightarrow> error + dom_map" where
  "Dominators_loop 0 start g dominators = Inl OutOfFuel"
| "Dominators_loop (Suc fuel) start g dominators =
     (case Dominators_pass start g (NodeList g) dominators False of
        Inl e \<Rightarrow> Inl e
      | Inr (dominators1, somethingChanged) \<Rightarrow>
          if somethingChanged then Dominators_loop fuel start g dominators1
          else Inr dominators1)"

definition Dominators :: "nat \<Rightarrow> node \<Rightarrow> graph \<Rightarrow> error + dom_map" where
  "Dominators fuel start g =
     Dominators_loop fuel start g
       (Dominators_init start (set (NodeList g)) (NodeList g) Map.empty)"

text \<open>\<open>PostDominators\<close>, lines 290 to 334, translated on its own.\<close>

fun PostDominators_init :: "node \<Rightarrow> node set \<Rightarrow> node list \<Rightarrow> dom_map \<Rightarrow> dom_map" where
  "PostDominators_init end_node allNodes [] dominators = dominators"
| "PostDominators_init end_node allNodes (node # others) dominators =
     PostDominators_init end_node allNodes others
       (dominators(node \<mapsto> (if node = end_node then insert end_node {} else allNodes)))"

fun PostDominators_pass :: "node \<Rightarrow> graph \<Rightarrow> node list \<Rightarrow> dom_map \<Rightarrow> bool
    \<Rightarrow> error + (dom_map \<times> bool)" where
  "PostDominators_pass end_node g [] dominators somethingChanged =
     Inr (dominators, somethingChanged)"
| "PostDominators_pass end_node g (node # others) dominators somethingChanged =
     (if node = end_node then PostDominators_pass end_node g others dominators somethingChanged
      else case Successors g node of
             [] \<Rightarrow> PostDominators_pass end_node g others dominators somethingChanged
           | s0 # succs \<Rightarrow>
               (case dominators s0 of
                  None \<Rightarrow> Inl Panic
                | Some d0 \<Rightarrow>
                    (case intersect_all dominators succs d0 of
                       Inl e \<Rightarrow> Inl e
                     | Inr tmp \<Rightarrow>
                         (case dominators node of
                            None \<Rightarrow> Inl Panic
                          | Some cur \<Rightarrow>
                              if insert node {} \<union> tmp \<noteq> cur
                              then PostDominators_pass end_node g others
                                     (dominators(node \<mapsto> insert node {} \<union> tmp)) True
                              else PostDominators_pass end_node g others dominators
                                     somethingChanged))))"

fun PostDominators_loop :: "nat \<Rightarrow> node \<Rightarrow> graph \<Rightarrow> dom_map \<Rightarrow> error + dom_map" where
  "PostDominators_loop 0 end_node g dominators = Inl OutOfFuel"
| "PostDominators_loop (Suc fuel) end_node g dominators =
     (case PostDominators_pass end_node g (NodeList g) dominators False of
        Inl e \<Rightarrow> Inl e
      | Inr (dominators1, somethingChanged) \<Rightarrow>
          if somethingChanged then PostDominators_loop fuel end_node g dominators1
          else Inr dominators1)"

definition PostDominators :: "nat \<Rightarrow> node \<Rightarrow> graph \<Rightarrow> error + dom_map" where
  "PostDominators fuel end_node g =
     PostDominators_loop fuel end_node g
       (PostDominators_init end_node (set (NodeList g)) (NodeList g) Map.empty)"

section \<open>The costs written to the destination\<close>


section \<open>Notions for the dominator fixed point\<close>

text \<open>
  \<open>dom_le d1 d\<close>: every set of \<open>d1\<close> is inside the set that \<open>d\<close> has for the same node.
  \<open>dom_inv\<close>: what every map of the loop satisfies: its keys are the listed nodes, its
  sets hold listed nodes only, and recomputing a node's set cannot grow it.
  \<open>dom_size\<close>: the number of elements of all the sets together. \<open>preds_listed\<close>: every
  predecessor of a listed node other than the start node is listed.
  \<open>dominators_reachable\<close>: the maps the loop goes through, from the initial map on.
\<close>

definition dom_le :: "dom_map \<Rightarrow> dom_map \<Rightarrow> bool" where
  "dom_le d1 d \<longleftrightarrow> (\<forall>n s1. d1 n = Some s1 \<longrightarrow> (\<exists>s. d n = Some s \<and> s1 \<subseteq> s))"

definition dom_inv :: "node \<Rightarrow> graph \<Rightarrow> dom_map \<Rightarrow> bool" where
  "dom_inv start g d \<longleftrightarrow>
     dom d = set (NodeList g) \<and>
     (\<forall>n s. d n = Some s \<longrightarrow> s \<subseteq> set (NodeList g)) \<and>
     (\<forall>n cur. n \<in> set (NodeList g) \<and> n \<noteq> start \<and> Predecessors g n \<noteq> [] \<and>
        set (Predecessors g n) \<subseteq> set (NodeList g) \<and> d n = Some cur \<longrightarrow>
        insert n (\<Inter>p\<in>set (Predecessors g n). the (d p)) \<subseteq> cur)"

definition dom_size :: "graph \<Rightarrow> dom_map \<Rightarrow> nat" where
  "dom_size g d = (\<Sum>n\<in>set (NodeList g). card (the (d n)))"

definition preds_listed :: "node \<Rightarrow> graph \<Rightarrow> bool" where
  "preds_listed start g \<longleftrightarrow>
     (\<forall>n\<in>set (NodeList g). n \<noteq> start \<longrightarrow> set (Predecessors g n) \<subseteq> set (NodeList g))"

inductive dominators_reachable :: "node \<Rightarrow> graph \<Rightarrow> dom_map \<Rightarrow> bool" for start g where
  init: "dominators_reachable start g
           (Dominators_init start (set (NodeList g)) (NodeList g) Map.empty)"
| pass: "dominators_reachable start g d \<Longrightarrow>
         Dominators_pass start g (NodeList g) d False = Inr (d1, True) \<Longrightarrow>
         dominators_reachable start g d1"

section \<open>The list-backed graph answers from its lists\<close>

lemma list_graph_sel [simp]:
  "Successors (list_graph ns es d c) n = map snd (filter (\<lambda>e. fst e = n) es)"
  "IsSuccessor (list_graph ns es d c) a b \<longleftrightarrow> (a, b) \<in> set es"
  "Predecessors (list_graph ns es d c) n = map fst (filter (\<lambda>e. snd e = n) es)"
  "IsPredecessor (list_graph ns es d c) a b \<longleftrightarrow> (b, a) \<in> set es"
  "NodeExists (list_graph ns es d c) n \<longleftrightarrow> n \<in> set ns"
  "EdgeList (list_graph ns es d c) = es"
  "NodeList (list_graph ns es d c) = ns"
  "IsDirected (list_graph ns es d c) = d"
  "Coster (list_graph ns es d c) = c"
  by (simp_all add: list_graph_def)

section \<open>Properties of IsPath\<close>

lemma IsPath_loop_iff:
  "IsPath_loop i path g \<longleftrightarrow>
     (\<forall>j. i \<le> j \<and> j < length path - 1 \<longrightarrow> IsSuccessor g (path ! j) (path ! (j + 1)))"
proof (induction i path g rule: IsPath_loop.induct)
  case (1 i path g)
  show ?case
  proof (cases "i < length path - 1")
    case False
    then show ?thesis
      by (subst IsPath_loop.simps) auto
  next
    case inb: True
    show ?thesis
    proof (cases "IsSuccessor g (path ! i) (path ! (i + 1))")
      case False
      with inb show ?thesis
        by (subst IsPath_loop.simps) auto
    next
      case True
      have "IsPath_loop i path g = IsPath_loop (i + 1) path g"
        using inb True by (subst IsPath_loop.simps) simp
      also have "\<dots> \<longleftrightarrow>
          (\<forall>j. i + 1 \<le> j \<and> j < length path - 1 \<longrightarrow> IsSuccessor g (path ! j) (path ! (j + 1)))"
        using "1.IH" inb True by simp
      also have "\<dots> \<longleftrightarrow>
          (\<forall>j. i \<le> j \<and> j < length path - 1 \<longrightarrow> IsSuccessor g (path ! j) (path ! (j + 1)))"
      proof
        assume h: "\<forall>j. i + 1 \<le> j \<and> j < length path - 1 \<longrightarrow>
                     IsSuccessor g (path ! j) (path ! (j + 1))"
        show "\<forall>j. i \<le> j \<and> j < length path - 1 \<longrightarrow> IsSuccessor g (path ! j) (path ! (j + 1))"
        proof (intro allI impI)
          fix j assume j: "i \<le> j \<and> j < length path - 1"
          show "IsSuccessor g (path ! j) (path ! (j + 1))"
          proof (cases "j = i")
            case True
            with \<open>IsSuccessor g (path ! i) (path ! (i + 1))\<close> show ?thesis by simp
          next
            case False
            with j h show ?thesis by simp
          qed
        qed
      next
        assume "\<forall>j. i \<le> j \<and> j < length path - 1 \<longrightarrow> IsSuccessor g (path ! j) (path ! (j + 1))"
        then show "\<forall>j. i + 1 \<le> j \<and> j < length path - 1 \<longrightarrow>
                     IsSuccessor g (path ! j) (path ! (j + 1))"
          by simp
      qed
      finally show ?thesis .
    qed
  qed
qed

text \<open>
  The loop stops at the first pair that is not an edge: what follows that pair in the
  sequence has no influence on the result.
\<close>

lemma IsPath_loop_short_circuit:
  assumes "i \<le> k" "k < length path - 1"
    and "\<not> IsSuccessor g (path ! k) (path ! (k + 1))"
  shows "\<not> IsPath_loop i (take (k + 2) path @ rest) g"
proof -
  let ?p = "take (k + 2) path @ rest"
  have len: "k < length ?p - 1" using assms(2) by simp
  have "?p ! k = path ! k" "?p ! (k + 1) = path ! (k + 1)"
    using assms(2) by (simp_all add: nth_append)
  with assms(3) have "\<not> IsSuccessor g (?p ! k) (?p ! (k + 1))" by simp
  with len assms(1) show ?thesis
    unfolding IsPath_loop_iff by blast
qed

text \<open>
  Claim C5. \<open>IsPath\<close> is true for the nil or empty sequence; for a sequence of one node it
  is true iff that node exists in the graph; for every longer sequence it is true iff
  every \<open>path[i+1]\<close> is a successor of \<open>path[i]\<close>, and it is false from the first violating
  pair on, whatever follows that pair.
\<close>

theorem IsPath_spec:
  "IsPath [] g \<and>
   (IsPath [n] g \<longleftrightarrow> NodeExists g n) \<and>
   (2 \<le> length path \<longrightarrow>
      (IsPath path g \<longleftrightarrow>
        (\<forall>i. i < length path - 1 \<longrightarrow> IsSuccessor g (path ! i) (path ! (i + 1))))) \<and>
   (2 \<le> length path \<and> k < length path - 1 \<and>
      \<not> IsSuccessor g (path ! k) (path ! (k + 1)) \<longrightarrow>
      \<not> IsPath (take (k + 2) path @ rest) g)"
proof (intro conjI impI)
  show "IsPath [] g" by (simp add: IsPath_def)
  show "IsPath [n] g \<longleftrightarrow> NodeExists g n" by (simp add: IsPath_def)
  show "IsPath path g \<longleftrightarrow>
       (\<forall>i. i < length path - 1 \<longrightarrow> IsSuccessor g (path ! i) (path ! (i + 1)))"
    if "2 \<le> length path"
  proof -
    from that have "path \<noteq> []" "length path \<noteq> 1" by auto
    then show ?thesis by (simp add: IsPath_def IsPath_loop_iff)
  qed
  show "\<not> IsPath (take (k + 2) path @ rest) g"
    if h: "2 \<le> length path \<and> k < length path - 1 \<and>
      \<not> IsSuccessor g (path ! k) (path ! (k + 1))"
  proof -
    let ?p = "take (k + 2) path @ rest"
    from h have "2 \<le> length ?p" by auto
    then have "?p \<noteq> []" "length ?p \<noteq> 1" by auto
    moreover have "\<not> IsPath_loop 0 ?p g"
      using IsPath_loop_short_circuit [of 0 k path g rest] h by simp
    ultimately show ?thesis by (simp add: IsPath_def)
  qed
qed

theorem IsPath_spec_witness:
  "2 \<le> length [0, 1, 2 :: node] \<and> (1::nat) < length [0, 1, 2 :: node] - 1 \<and>
   \<not> IsSuccessor (list_graph [0, 1, 2] [(0, 1)] True None) ([0, 1, 2] ! 1) ([0, 1, 2] ! (1 + 1)) \<and>
   \<not> IsPath (take (1 + 2) [0, 1, 2] @ [0, 1]) (list_graph [0, 1, 2] [(0, 1)] True None) \<and>
   IsPath [] (list_graph [0, 1, 2] [(0, 1)] True None) \<and>
   IsPath [2] (list_graph [0, 1, 2] [(0, 1)] True None) \<and>
   \<not> IsPath [0, 1, 2] (list_graph [0, 1, 2] [(0, 1)] True None) \<and>
   IsPath [0, 1] (list_graph [0, 1, 2] [(0, 1)] True None)"
  using IsPath_spec [of "list_graph [0, 1, 2] [(0, 1)] True None" 2 "[0, 1, 2]" 1 "[0, 1]"]
    IsPath_spec [of "list_graph [0, 1, 2] [(0, 1)] True None" 2 "[0, 1]" 0 "[]"]
  by (simp add: All_less_Suc numeral_2_eq_2)

section \<open>PostDominators is Dominators on the reversed graph\<close>

lemma reverse_graph_sel [simp]:
  "Predecessors (reverse_graph g) = Successors g"
  "Successors (reverse_graph g) = Predecessors g"
  "NodeList (reverse_graph g) = NodeList g"
  by (simp_all add: reverse_graph_def)

lemma PostDominators_init_eq:
  "PostDominators_init e allNodes ns d = Dominators_init e allNodes ns d"
  by (induction ns arbitrary: d) simp_all

lemma PostDominators_pass_eq:
  "PostDominators_pass e g ns d ch = Dominators_pass e (reverse_graph g) ns d ch"
proof (induction ns arbitrary: d ch)
  case Nil
  show ?case by simp
next
  case (Cons n ns)
  show ?case
    by (simp add: Cons.IH fun_upd_def split: list.splits option.splits sum.splits)
qed

lemma PostDominators_loop_eq:
  "PostDominators_loop fuel e g d = Dominators_loop fuel e (reverse_graph g) d"
proof (induction fuel arbitrary: d)
  case 0
  show ?case by simp
next
  case (Suc fuel)
  show ?case
    by (simp add: Suc.IH PostDominators_pass_eq split: sum.splits prod.splits)
qed

text \<open>
  Claim C9. \<open>PostDominators(e, G)\<close> returns what \<open>Dominators(e, G')\<close> returns, where \<open>G'\<close>
  is \<open>G\<close> with successors and predecessors exchanged; the two run the same number of
  passes and fail on the same inputs.
\<close>

theorem PostDominators_is_Dominators_reversed:
  "PostDominators fuel e g = Dominators fuel e (reverse_graph g)"
  by (simp add: PostDominators_def Dominators_def PostDominators_loop_eq PostDominators_init_eq)

section \<open>Prim on an empty source graph\<close>

text \<open>
  Claim C8. When the source's node list is nil or empty, \<open>Prim\<close> returns without adding
  a node or an edge: the destination is what \<open>EmptyGraph\<close> and \<open>SetDirected(false)\<close> leave,
  with no node, no edge, undirected; no failure occurs, whatever the iteration budget.
\<close>

theorem Prim_empty_source:
  "NodeList g = [] \<Longrightarrow>
     Prim fuel srt dst g Cost = Inr (SetDirected False (EmptyGraph dst)) \<and>
     mg_nodes (SetDirected False (EmptyGraph dst)) = [] \<and>
     mg_edges (SetDirected False (EmptyGraph dst)) = [] \<and>
     \<not> mg_directed (SetDirected False (EmptyGraph dst))"
  by (simp add: Prim_def Prim_body_def EmptyGraph_def SetDirected_def)

theorem Prim_empty_source_witness:
  "NodeList (list_graph [] [] False None) = [] \<and>
   Prim 0 insertionSort \<lparr>mg_nodes = [5], mg_edges = [((5, 5), 2)], mg_directed = True\<rparr>
     (list_graph [] [] False None) None
     = Inr \<lparr>mg_nodes = [], mg_edges = [], mg_directed = False\<rparr>"
  using Prim_empty_source [of "list_graph [] [] False None" 0 insertionSort
      "\<lparr>mg_nodes = [5], mg_edges = [((5, 5), 2)], mg_directed = True\<rparr>" None]
  by (simp add: EmptyGraph_def SetDirected_def)

section \<open>Cost precedence\<close>

lemmas mgraph_ops = EmptyGraph_def SetDirected_def dst_NodeExists_def ensure_node_def
  ensure_edge_def AddEdge_def AddNode_def SetEdgeCost_def add_to_dst_def



lemma ensure_node_edges [simp]: "mg_edges (ensure_node n d) = mg_edges d"
  by (simp add: ensure_node_def)

lemma ensure_node_directed [simp]: "mg_directed (ensure_node n d) = mg_directed d"
  by (simp add: ensure_node_def)

lemma ensure_edge_directed [simp]: "mg_directed (ensure_edge e d) = mg_directed d"
  by (simp add: ensure_edge_def)


lemma AddEdge_directed [simp]: "mg_directed (AddEdge a b d) = mg_directed d"
  by (simp add: AddEdge_def Let_def)


lemma AddNode1_directed [simp]: "mg_directed (AddNode a [b] d) = mg_directed d"
  by (simp add: AddNode_def)




















lemmas Kruskal_eval = Kruskal_def Kruskal_body_def Kruskal_edgeWeights_def insertionSort_def
  mgraph_ops Less_def MakeSet_def Find_def Union_ds_def


lemma Kruskal_ex3_Coster:
  "Kruskal insertionSort \<lparr>mg_nodes = [5], mg_edges = [((5, 5), 2)], mg_directed = True\<rparr>
     (list_graph [0, 1, 2] [(0, 1), (0, 2), (1, 2)] True (Some (\<lambda>a b. real_of_int b * real_of_int b - real_of_int a * real_of_int a))) None
   = \<lparr>mg_nodes = [0, 1, 2],
      mg_edges = [((0, 1), 1), ((1, 0), 1), ((1, 2), 3), ((2, 1), 3)], mg_directed = False\<rparr>"
  by (simp add: Kruskal_eval)




section \<open>The dominator fixed point\<close>

lemma Dominators_init_apply:
  "Dominators_init start A ns d n =
     (if n \<in> set ns then Some (if n = start then {start} else A) else d n)"
  by (induction ns arbitrary: d) auto

lemma intersect_all_eq:
  "intersect_all d ps tmp =
     (if set ps \<subseteq> dom d then Inr (tmp \<inter> (\<Inter>p\<in>set ps. the (d p))) else Inl Panic)"
proof (induction ps arbitrary: tmp)
  case Nil
  show ?case by simp
next
  case (Cons p ps)
  show ?case
  proof (cases "d p")
    case None
    then show ?thesis by (auto simp: dom_def)
  next
    case (Some s)
    then show ?thesis by (auto simp: Cons.IH dom_def)
  qed
qed

lemma dom_le_refl: "dom_le d d"
  by (simp add: dom_le_def)

lemma dom_le_trans: "dom_le d2 d1 \<Longrightarrow> dom_le d1 d \<Longrightarrow> dom_le d2 d"
  unfolding dom_le_def by (meson subset_trans)

lemma Inter_preds_subset:
  assumes vals: "\<forall>n s. d n = Some s \<longrightarrow> s \<subseteq> V"
    and ne: "ps \<noteq> []" and sub: "set ps \<subseteq> dom d"
  shows "(\<Inter>p\<in>set ps. the (d p)) \<subseteq> V"
proof -
  from ne obtain p where p: "p \<in> set ps" by (cases ps) auto
  with sub obtain s where s: "d p = Some s" by auto
  with vals have "s \<subseteq> V" by blast
  moreover have "(\<Inter>p\<in>set ps. the (d p)) \<subseteq> the (d p)" using p by blast
  ultimately show ?thesis using s by auto
qed

lemma dom_invI:
  assumes a1: "dom d = set (NodeList g)"
    and a2: "\<And>n s. d n = Some s \<Longrightarrow> s \<subseteq> set (NodeList g)"
    and a3: "\<And>n cur. n \<in> set (NodeList g) \<Longrightarrow> n \<noteq> start \<Longrightarrow> Predecessors g n \<noteq> [] \<Longrightarrow>
        set (Predecessors g n) \<subseteq> set (NodeList g) \<Longrightarrow> d n = Some cur \<Longrightarrow>
        insert n (\<Inter>p\<in>set (Predecessors g n). the (d p)) \<subseteq> cur"
  shows "dom_inv start g d"
  unfolding dom_inv_def
proof (intro conjI allI impI)
  show "dom d = set (NodeList g)" by (rule a1)
next
  fix n s assume "d n = Some s"
  then show "s \<subseteq> set (NodeList g)" by (rule a2)
next
  fix n cur
  assume h: "n \<in> set (NodeList g) \<and> n \<noteq> start \<and> Predecessors g n \<noteq> [] \<and>
        set (Predecessors g n) \<subseteq> set (NodeList g) \<and> d n = Some cur"
  from h have h1: "n \<in> set (NodeList g)" and h2: "n \<noteq> start"
    and h3: "Predecessors g n \<noteq> []" and h4: "set (Predecessors g n) \<subseteq> set (NodeList g)"
    and h5: "d n = Some cur" by simp_all
  show "insert n (\<Inter>p\<in>set (Predecessors g n). the (d p)) \<subseteq> cur"
    by (rule a3 [OF h1 h2 h3 h4 h5])
qed

lemma dom_inv_dom: "dom_inv start g d \<Longrightarrow> dom d = set (NodeList g)"
  by (simp add: dom_inv_def)

lemma dom_inv_vals: "dom_inv start g d \<Longrightarrow> d n = Some s \<Longrightarrow> s \<subseteq> set (NodeList g)"
  by (simp add: dom_inv_def)

lemma dom_inv_post:
  assumes "dom_inv start g d" "n \<in> set (NodeList g)" "n \<noteq> start" "Predecessors g n \<noteq> []"
    "set (Predecessors g n) \<subseteq> set (NodeList g)" "d n = Some cur"
  shows "insert n (\<Inter>p\<in>set (Predecessors g n). the (d p)) \<subseteq> cur"
proof -
  from assms(1) have "\<forall>n cur. n \<in> set (NodeList g) \<and> n \<noteq> start \<and> Predecessors g n \<noteq> [] \<and>
        set (Predecessors g n) \<subseteq> set (NodeList g) \<and> d n = Some cur \<longrightarrow>
        insert n (\<Inter>p\<in>set (Predecessors g n). the (d p)) \<subseteq> cur"
    by (simp add: dom_inv_def)
  then have "n \<in> set (NodeList g) \<and> n \<noteq> start \<and> Predecessors g n \<noteq> [] \<and>
        set (Predecessors g n) \<subseteq> set (NodeList g) \<and> d n = Some cur \<longrightarrow>
        insert n (\<Inter>p\<in>set (Predecessors g n). the (d p)) \<subseteq> cur"
    by (elim allE)
  with assms show ?thesis by simp
qed

lemma dom_inv_init:
  "dom_inv start g (Dominators_init start (set (NodeList g)) (NodeList g) Map.empty)"
proof (rule dom_invI)
  let ?V = "set (NodeList g)"
  let ?d = "Dominators_init start ?V (NodeList g) Map.empty"
  show d: "dom ?d = ?V"
    by (auto simp: Dominators_init_apply dom_def split: if_splits)
  show vals: "s \<subseteq> ?V" if "?d n = Some s" for n s
    using that by (auto simp: Dominators_init_apply split: if_splits)
  show "insert n (\<Inter>p\<in>set (Predecessors g n). the (?d p)) \<subseteq> cur"
    if n: "n \<in> ?V" "n \<noteq> start" and ne: "Predecessors g n \<noteq> []"
      and sub: "set (Predecessors g n) \<subseteq> ?V" and c: "?d n = Some cur" for n cur
  proof -
    from n c have cur: "cur = ?V" by (simp add: Dominators_init_apply)
    have "\<forall>n s. ?d n = Some s \<longrightarrow> s \<subseteq> ?V" using vals by blast
    then have "(\<Inter>p\<in>set (Predecessors g n). the (?d p)) \<subseteq> ?V"
      using Inter_preds_subset [of ?d ?V "Predecessors g n"] ne sub d by simp
    with n cur show ?thesis by simp
  qed
qed

lemma Inter_mono_maps:
  assumes "\<And>p. p \<in> A \<Longrightarrow> the (d1 p) \<subseteq> the (d p)"
  shows "(\<Inter>p\<in>A. the (d1 p)) \<subseteq> (\<Inter>p\<in>A. the (d p))"
proof
  fix x assume x: "x \<in> (\<Inter>p\<in>A. the (d1 p))"
  show "x \<in> (\<Inter>p\<in>A. the (d p))"
  proof
    fix p assume p: "p \<in> A"
    with x have "x \<in> the (d1 p)" by simp
    with assms [OF p] show "x \<in> the (d p)" by auto
  qed
qed

text \<open>One node of a pass: the new set is inside the old one, and the invariant stays.\<close>

lemma dom_inv_step:
  assumes inv: "dom_inv start g d"
    and n: "n \<in> set (NodeList g)" "n \<noteq> start"
    and preds: "Predecessors g n = p0 # ps" "set (p0 # ps) \<subseteq> dom d"
    and cur: "d n = Some cur"
    and new: "new = insert n (\<Inter>p\<in>set (p0 # ps). the (d p))"
  shows "new \<subseteq> cur" and "dom_inv start g (d(n \<mapsto> new))"
proof -
  let ?V = "set (NodeList g)"
  let ?d1 = "d(n \<mapsto> new)"
  have d: "dom d = ?V" by (rule dom_inv_dom [OF inv])
  have psV: "set (Predecessors g n) \<subseteq> ?V" using preds d by simp
  have ne: "Predecessors g n \<noteq> []" using preds by simp
  have "insert n (\<Inter>p\<in>set (Predecessors g n). the (d p)) \<subseteq> cur"
    by (rule dom_inv_post [OF inv n(1) n(2) ne psV cur])
  then show sub: "new \<subseteq> cur" by (simp add: new preds(1))
  have curV: "cur \<subseteq> ?V" by (rule dom_inv_vals [OF inv cur])
  have newV: "new \<subseteq> ?V" using sub curV by (rule subset_trans)
  have le: "the (?d1 p) \<subseteq> the (d p)" for p
  proof (cases "p = n")
    case True
    then show ?thesis using sub cur by simp
  next
    case False
    then show ?thesis by simp
  qed
  show "dom_inv start g ?d1"
  proof (rule dom_invI)
    show "dom ?d1 = ?V" using d n(1) by auto
  next
    fix m s assume ms: "?d1 m = Some s"
    show "s \<subseteq> ?V"
    proof (cases "m = n")
      case True
      with ms newV show ?thesis by simp
    next
      case False
      with ms have "d m = Some s" by simp
      then show ?thesis by (rule dom_inv_vals [OF inv])
    qed
  next
    fix m c
    assume m: "m \<in> ?V" "m \<noteq> start" and mne: "Predecessors g m \<noteq> []"
      and msub: "set (Predecessors g m) \<subseteq> ?V" and mc: "?d1 m = Some c"
    have mono: "(\<Inter>p\<in>set (Predecessors g m). the (?d1 p))
        \<subseteq> (\<Inter>p\<in>set (Predecessors g m). the (d p))"
      by (rule Inter_mono_maps) (rule le)
    show "insert m (\<Inter>p\<in>set (Predecessors g m). the (?d1 p)) \<subseteq> c"
    proof (cases "m = n")
      case True
      with mc have c: "c = new" by simp
      have "(\<Inter>p\<in>set (Predecessors g n). the (?d1 p)) \<subseteq> new"
        using mono True by (auto simp: new preds(1))
      moreover have "n \<in> new" by (simp add: new)
      ultimately show ?thesis using True c by simp
    next
      case False
      with mc have c: "d m = Some c" by simp
      have "insert m (\<Inter>p\<in>set (Predecessors g m). the (d p)) \<subseteq> c"
        by (rule dom_inv_post [OF inv m(1) m(2) mne msub c])
      with mono show ?thesis by auto
    qed
  qed
qed

lemma dom_leD: "dom_le d1 d \<Longrightarrow> d1 n = Some s1 \<Longrightarrow> \<exists>s. d n = Some s \<and> s1 \<subseteq> s"
  by (simp add: dom_le_def)

lemma dom_le_update:
  assumes "d n = Some cur" "new \<subseteq> cur"
  shows "dom_le (d(n \<mapsto> new)) d"
  unfolding dom_le_def using assms by auto

text \<open>
  A pass keeps the invariant, only shrinks the sets, and raises the flag exactly when it
  changed a set.
\<close>

lemma Dominators_pass_inv:
  assumes "dom_inv start g d" "set ns \<subseteq> set (NodeList g)"
    and "Dominators_pass start g ns d ch = Inr (d1, ch1)"
  shows "dom_inv start g d1 \<and> dom_le d1 d \<and> (ch1 \<longleftrightarrow> ch \<or> d1 \<noteq> d)"
  using assms
proof (induction ns arbitrary: d ch)
  case Nil
  then show ?case by (simp add: dom_le_refl)
next
  case (Cons n ns)
  note inv = Cons.prems(1)
  have nV: "n \<in> set (NodeList g)" and nsV: "set ns \<subseteq> set (NodeList g)"
    using Cons.prems(2) by simp_all
  note run = Cons.prems(3)
  show ?case
  proof (cases "n = start \<or> Predecessors g n = []")
    case True
    then have "Dominators_pass start g (n # ns) d ch = Dominators_pass start g ns d ch"
      by auto
    with run have "Dominators_pass start g ns d ch = Inr (d1, ch1)" by simp
    then show ?thesis by (rule Cons.IH [OF inv nsV])
  next
    case False
    then have ns: "n \<noteq> start" by simp
    from False obtain p0 ps where preds: "Predecessors g n = p0 # ps"
      by (cases "Predecessors g n") auto
    from run ns preds obtain s0 where s0: "d p0 = Some s0"
      by (cases "d p0") auto
    from run ns preds s0 obtain tmp where tmp: "intersect_all d ps s0 = Inr tmp"
      by (cases "intersect_all d ps s0") auto
    from run ns preds s0 tmp obtain cur where cur: "d n = Some cur"
      by (cases "d n") auto
    from tmp have psd: "set ps \<subseteq> dom d" and tmp_eq: "tmp = s0 \<inter> (\<Inter>p\<in>set ps. the (d p))"
      by (auto simp: intersect_all_eq split: if_splits)
    let ?new = "insert n {} \<union> tmp"
    have new: "?new = insert n (\<Inter>p\<in>set (p0 # ps). the (d p))"
      using tmp_eq s0 by simp
    have pd: "set (p0 # ps) \<subseteq> dom d" using psd s0 by auto
    have sub: "?new \<subseteq> cur"
      by (rule dom_inv_step(1) [OF inv nV ns preds pd cur new])
    have inv1: "dom_inv start g (d(n \<mapsto> ?new))"
      by (rule dom_inv_step(2) [OF inv nV ns preds pd cur new])
    show ?thesis
    proof (cases "?new = cur")
      case True
      with run ns preds s0 tmp cur
      have "Dominators_pass start g ns d ch = Inr (d1, ch1)" by simp
      then show ?thesis by (rule Cons.IH [OF inv nsV])
    next
      case neq: False
      with run ns preds s0 tmp cur
      have r: "Dominators_pass start g ns (d(n \<mapsto> ?new)) True = Inr (d1, ch1)" by simp
      note ih = Cons.IH [OF inv1 nsV r]
      have i1: "dom_inv start g d1" using ih by (rule conjunct1)
      have le1: "dom_le d1 (d(n \<mapsto> ?new))" using ih by blast
      have c1: "ch1" using ih by blast
      have "dom_le (d(n \<mapsto> ?new)) d"
        using cur sub by (rule dom_le_update)
      with le1 have le: "dom_le d1 d" by (rule dom_le_trans)
      have "d1 \<noteq> d"
      proof
        assume e: "d1 = d"
        with cur have "d1 n = Some cur" by simp
        from dom_leD [OF le1 this] have "cur \<subseteq> ?new" by simp
        with sub neq show False by blast
      qed
      with i1 le c1 show ?thesis by simp
    qed
  qed
qed

lemma dom_size_bound:
  assumes "dom_inv start g d"
  shows "dom_size g d \<le> length (NodeList g) * length (NodeList g)"
proof -
  let ?V = "set (NodeList g)"
  have each: "card (the (d n)) \<le> length (NodeList g)" if "n \<in> ?V" for n
  proof -
    from that dom_inv_dom [OF assms] obtain s where s: "d n = Some s" by auto
    have "s \<subseteq> ?V" by (rule dom_inv_vals [OF assms s])
    then have "card s \<le> card ?V" by (simp add: card_mono)
    also have "\<dots> \<le> length (NodeList g)" by (rule card_length)
    finally show ?thesis using s by simp
  qed
  have "dom_size g d \<le> (\<Sum>n\<in>?V. length (NodeList g))"
    unfolding dom_size_def by (rule sum_mono) (rule each)
  also have "\<dots> = card ?V * length (NodeList g)" by simp
  also have "\<dots> \<le> length (NodeList g) * length (NodeList g)"
    by (rule mult_le_mono1) (rule card_length)
  finally show ?thesis .
qed

lemma dom_size_less:
  assumes i: "dom_inv start g d" and i1: "dom_inv start g d1"
    and le: "dom_le d1 d" and ne: "d1 \<noteq> d"
  shows "dom_size g d1 < dom_size g d"
proof -
  let ?V = "set (NodeList g)"
  have fin: "finite (the (d n))" if "n \<in> ?V" for n
  proof -
    from that dom_inv_dom [OF i] obtain s where s: "d n = Some s" by auto
    have "s \<subseteq> ?V" by (rule dom_inv_vals [OF i s])
    then have "finite s" by (rule finite_subset) simp
    with s show ?thesis by simp
  qed
  have sub: "the (d1 n) \<subseteq> the (d n)" if "n \<in> ?V" for n
  proof -
    from that dom_inv_dom [OF i1] obtain s1 where s1: "d1 n = Some s1" by auto
    from dom_leD [OF le s1] s1 show ?thesis by auto
  qed
  from ne obtain n where n: "d1 n \<noteq> d n" by auto
  have nV: "n \<in> ?V"
  proof (rule ccontr)
    assume "n \<notin> ?V"
    with dom_inv_dom [OF i] dom_inv_dom [OF i1] have "d n = None" "d1 n = None" by auto
    with n show False by simp
  qed
  from nV dom_inv_dom [OF i] dom_inv_dom [OF i1]
  have "n \<in> dom d" "n \<in> dom d1" by simp_all
  then obtain s s1 where s: "d n = Some s" and s1: "d1 n = Some s1" by blast
  with n sub [OF nV] have "s1 \<subset> s" by auto
  with fin [OF nV] s have "card s1 < card s" by (simp add: psubset_card_mono)
  with s s1 have strict: "card (the (d1 n)) < card (the (d n))" by simp
  have weak: "card (the (d1 m)) \<le> card (the (d m))" if "m \<in> ?V" for m
    using sub [OF that] fin [OF that] by (simp add: card_mono)
  show ?thesis
    unfolding dom_size_def
    by (rule sum_strict_mono_ex1) (use weak strict nV in auto)
qed

lemma Dominators_pass_not_OutOfFuel:
  "Dominators_pass start g ns d ch \<noteq> Inl OutOfFuel"
proof (induction ns arbitrary: d ch)
  case Nil
  show ?case by simp
next
  case (Cons n ns)
  show ?case
    by (auto simp: Cons.IH intersect_all_eq split: list.splits option.splits sum.splits if_splits)
qed

lemma Dominators_pass_start:
  "Dominators_pass start g ns d ch = Inr (d1, ch1) \<Longrightarrow> d1 start = d start"
proof (induction ns arbitrary: d ch)
  case Nil
  then show ?case by simp
next
  case (Cons n ns)
  show ?case
  proof (cases "n = start")
    case True
    with Cons.prems have "Dominators_pass start g ns d ch = Inr (d1, ch1)" by simp
    then show ?thesis by (rule Cons.IH)
  next
    case False
    from Cons.prems False
    consider "Dominators_pass start g ns d ch = Inr (d1, ch1)"
      | new where "Dominators_pass start g ns (d(n \<mapsto> new)) True = Inr (d1, ch1)"
      by (auto split: list.splits option.splits sum.splits if_splits)
    then show ?thesis
    proof cases
      case 1
      then show ?thesis by (rule Cons.IH)
    next
      case 2
      from Cons.IH [OF 2] False show ?thesis by simp
    qed
  qed
qed

lemma Dominators_pass_returns:
  assumes "dom_inv start g d" "preds_listed start g" "set ns \<subseteq> set (NodeList g)"
  shows "\<exists>r. Dominators_pass start g ns d ch = Inr r"
  using assms
proof (induction ns arbitrary: d ch)
  case Nil
  show ?case by simp
next
  case (Cons n ns)
  note inv = Cons.prems(1)
  note pl = Cons.prems(2)
  have nV: "n \<in> set (NodeList g)" and nsV: "set ns \<subseteq> set (NodeList g)"
    using Cons.prems(3) by simp_all
  show ?case
  proof (cases "n = start \<or> Predecessors g n = []")
    case True
    then have "Dominators_pass start g (n # ns) d ch = Dominators_pass start g ns d ch"
      by auto
    with Cons.IH [OF inv pl nsV, of ch] show ?thesis by simp
  next
    case False
    then have ns: "n \<noteq> start" by simp
    from False obtain p0 ps where preds: "Predecessors g n = p0 # ps"
      by (cases "Predecessors g n") auto
    have d: "dom d = set (NodeList g)" by (rule dom_inv_dom [OF inv])
    from pl nV ns have "set (Predecessors g n) \<subseteq> set (NodeList g)"
      by (simp add: preds_listed_def)
    with preds d have pd: "set (p0 # ps) \<subseteq> dom d" by simp
    then obtain s0 where s0: "d p0 = Some s0" by auto
    from pd have tmp: "intersect_all d ps s0 = Inr (s0 \<inter> (\<Inter>p\<in>set ps. the (d p)))"
      by (simp add: intersect_all_eq)
    from nV d obtain cur where cur: "d n = Some cur" by auto
    let ?new = "insert n {} \<union> (s0 \<inter> (\<Inter>p\<in>set ps. the (d p)))"
    have new: "?new = insert n (\<Inter>p\<in>set (p0 # ps). the (d p))"
      using s0 by simp
    have inv1: "dom_inv start g (d(n \<mapsto> ?new))"
      by (rule dom_inv_step(2) [OF inv nV ns preds pd cur new])
    show ?thesis
    proof (cases "?new = cur")
      case True
      with ns preds s0 tmp cur
      have "Dominators_pass start g (n # ns) d ch = Dominators_pass start g ns d ch" by simp
      with Cons.IH [OF inv pl nsV, of ch] show ?thesis by simp
    next
      case False
      with ns preds s0 tmp cur
      have eq: "Dominators_pass start g (n # ns) d ch
          = Dominators_pass start g ns (d(n \<mapsto> ?new)) True" by simp
      show ?thesis unfolding eq by (rule Cons.IH [OF inv1 pl nsV])
    qed
  qed
qed

text \<open>Each pass that changes a set lowers \<open>dom_size\<close>, so the budget is never used up.\<close>

lemma Dominators_loop_terminates:
  assumes "dom_inv start g d" "dom_size g d < fuel"
  shows "Dominators_loop fuel start g d \<noteq> Inl OutOfFuel"
  using assms
proof (induction fuel arbitrary: d)
  case 0
  then show ?case by simp
next
  case (Suc fuel)
  show ?case
  proof (cases "Dominators_pass start g (NodeList g) d False")
    case (Inl e)
    with Dominators_pass_not_OutOfFuel [of start g "NodeList g" d False]
    show ?thesis by simp
  next
    case (Inr r)
    obtain d1 ch1 where r: "r = (d1, ch1)" by (cases r)
    with Inr have run: "Dominators_pass start g (NodeList g) d False = Inr (d1, ch1)" by simp
    note pi = Dominators_pass_inv [OF Suc.prems(1) subset_refl run]
    have i1: "dom_inv start g d1" using pi by (rule conjunct1)
    have le: "dom_le d1 d" using pi by blast
    have ch: "ch1 \<longleftrightarrow> d1 \<noteq> d" using pi by blast
    show ?thesis
    proof (cases ch1)
      case True
      with ch have "d1 \<noteq> d" by simp
      from dom_size_less [OF Suc.prems(1) i1 le this] Suc.prems(2)
      have "dom_size g d1 < fuel" by simp
      from Suc.IH [OF i1 this] run True show ?thesis by simp
    next
      case False
      with run show ?thesis by simp
    qed
  qed
qed

lemma Dominators_loop_returns:
  assumes "dom_inv start g d" "preds_listed start g" "dom_size g d < fuel"
  shows "\<exists>m. Dominators_loop fuel start g d = Inr m \<and> dom_inv start g m \<and> dom_le m d"
  using assms
proof (induction fuel arbitrary: d)
  case 0
  then show ?case by simp
next
  case (Suc fuel)
  from Dominators_pass_returns [OF Suc.prems(1) Suc.prems(2) subset_refl, of False]
  obtain d1 ch1 where run: "Dominators_pass start g (NodeList g) d False = Inr (d1, ch1)"
    by auto
  note pi = Dominators_pass_inv [OF Suc.prems(1) subset_refl run]
  have i1: "dom_inv start g d1" using pi by (rule conjunct1)
  have le: "dom_le d1 d" using pi by blast
  have ch: "ch1 \<longleftrightarrow> d1 \<noteq> d" using pi by blast
  show ?case
  proof (cases ch1)
    case True
    with ch have "d1 \<noteq> d" by simp
    from dom_size_less [OF Suc.prems(1) i1 le this] Suc.prems(3)
    have "dom_size g d1 < fuel" by simp
    from Suc.IH [OF i1 Suc.prems(2) this]
    obtain m where m: "Dominators_loop fuel start g d1 = Inr m" "dom_inv start g m" "dom_le m d1"
      by blast
    from m(3) le have "dom_le m d" by (rule dom_le_trans)
    with m run True show ?thesis by simp
  next
    case False
    with run i1 le show ?thesis by simp
  qed
qed

lemma Dominators_loop_start:
  "Dominators_loop fuel start g d = Inr m \<Longrightarrow> m start = d start"
proof (induction fuel arbitrary: d)
  case 0
  then show ?case by simp
next
  case (Suc fuel)
  from Suc.prems obtain d1 ch1
    where run: "Dominators_pass start g (NodeList g) d False = Inr (d1, ch1)"
    by (cases "Dominators_pass start g (NodeList g) d False") auto
  have s1: "d1 start = d start" by (rule Dominators_pass_start [OF run])
  show ?case
  proof (cases ch1)
    case True
    with Suc.prems run have "Dominators_loop fuel start g d1 = Inr m" by simp
    from Suc.IH [OF this] s1 show ?thesis by simp
  next
    case False
    with Suc.prems run have "m = d1" by simp
    with s1 show ?thesis by simp
  qed
qed

lemma dominators_reachable_inv:
  "dominators_reachable start g d \<Longrightarrow> dom_inv start g d"
proof (induction rule: dominators_reachable.induct)
  case init
  show ?case by (rule dom_inv_init)
next
  case (pass d d1)
  from Dominators_pass_inv [OF pass.IH subset_refl pass.hyps(2)]
  show ?case by (rule conjunct1)
qed

lemma g3_preds: "preds_listed 0 (list_graph [0, 1, 2] [(0, 1), (1, 2)] True None)"
  by (simp add: preds_listed_def)

lemma sets_differ: "{0, 1} \<noteq> {0, 1, 2 :: int}"
proof -
  have "(2::int) \<in> {0, 1, 2}" by simp
  moreover have "(2::int) \<notin> {0, 1}" by simp
  ultimately show ?thesis by metis
qed

lemma g3_init:
  "Dominators_init 0 (set (NodeList (list_graph [0, 1, 2] [(0, 1), (1, 2)] True None)))
      (NodeList (list_graph [0, 1, 2] [(0, 1), (1, 2)] True None)) Map.empty
   = [0 \<mapsto> {0}, 1 \<mapsto> {0, 1, 2}, 2 \<mapsto> {0, 1, 2}]"
  by simp

lemma g3_pass:
  "Dominators_pass 0 (list_graph [0, 1, 2] [(0, 1), (1, 2)] True None)
      (NodeList (list_graph [0, 1, 2] [(0, 1), (1, 2)] True None))
      [0 \<mapsto> {0}, 1 \<mapsto> {0, 1, 2}, 2 \<mapsto> {0, 1, 2}] False
   = Inr ([0 \<mapsto> {0}, 2 \<mapsto> {0, 1, 2}, 1 \<mapsto> {0, 1}], True)"
  by (simp add: sets_differ)

lemma g3_reach:
  "dominators_reachable 0 (list_graph [0, 1, 2] [(0, 1), (1, 2)] True None)
     [0 \<mapsto> {0}, 1 \<mapsto> {0, 1, 2}, 2 \<mapsto> {0, 1, 2}]"
  using dominators_reachable.init [of 0 "list_graph [0, 1, 2] [(0, 1), (1, 2)] True None"]
  unfolding g3_init .

text \<open>
  Claim C6. The fixed-point loop of \<open>Dominators\<close> terminates for every graph and start
  node: a budget of more passes than the square of the node list's length is never
  used up, and when the predecessors of the listed nodes are listed the loop returns a
  map. Across passes every set only shrinks from the initial map on: each pass yields
  sets inside the previous ones, raises its flag exactly when it changed a set, and then
  the total size of the sets, which is bounded, has gone down.
\<close>

theorem Dominators_terminates:
  "(length (NodeList g) * length (NodeList g) < fuel \<longrightarrow>
      Dominators fuel start g \<noteq> Inl OutOfFuel \<and>
      (preds_listed start g \<longrightarrow> (\<exists>m. Dominators fuel start g = Inr m))) \<and>
   (dominators_reachable start g d \<and>
    Dominators_pass start g (NodeList g) d False = Inr (d1, ch1) \<longrightarrow>
      dom_le d1 d \<and> (ch1 \<longleftrightarrow> d1 \<noteq> d) \<and> (ch1 \<longrightarrow> dom_size g d1 < dom_size g d) \<and>
      dom_size g d \<le> length (NodeList g) * length (NodeList g))"
proof (intro conjI impI)
  let ?d0 = "Dominators_init start (set (NodeList g)) (NodeList g) Map.empty"
  have i0: "dom_inv start g ?d0" by (rule dom_inv_init)
  assume f: "length (NodeList g) * length (NodeList g) < fuel"
  with dom_size_bound [OF i0] have sz: "dom_size g ?d0 < fuel" by simp
  show "Dominators fuel start g \<noteq> Inl OutOfFuel"
    unfolding Dominators_def by (rule Dominators_loop_terminates [OF i0 sz])
  assume "preds_listed start g"
  from Dominators_loop_returns [OF i0 this sz]
  show "\<exists>m. Dominators fuel start g = Inr m"
    unfolding Dominators_def by blast
next
  assume h: "dominators_reachable start g d \<and>
    Dominators_pass start g (NodeList g) d False = Inr (d1, ch1)"
  then have inv: "dom_inv start g d" by (simp add: dominators_reachable_inv)
  from h have run: "Dominators_pass start g (NodeList g) d False = Inr (d1, ch1)" by simp
  note pi = Dominators_pass_inv [OF inv subset_refl run]
  have i1: "dom_inv start g d1" using pi by (rule conjunct1)
  show le: "dom_le d1 d" using pi by blast
  show ch: "ch1 \<longleftrightarrow> d1 \<noteq> d" using pi by blast
  show "dom_size g d \<le> length (NodeList g) * length (NodeList g)"
    by (rule dom_size_bound [OF inv])
  assume ch1
  with ch have "d1 \<noteq> d" by simp
  then show "dom_size g d1 < dom_size g d" by (rule dom_size_less [OF inv i1 le])
qed

theorem Dominators_terminates_witness:
  "length (NodeList (list_graph [0, 1, 2] [(0, 1), (1, 2)] True None))
     * length (NodeList (list_graph [0, 1, 2] [(0, 1), (1, 2)] True None)) < 10 \<and>
   preds_listed 0 (list_graph [0, 1, 2] [(0, 1), (1, 2)] True None) \<and>
   Dominators 10 0 (list_graph [0, 1, 2] [(0, 1), (1, 2)] True None) \<noteq> Inl OutOfFuel \<and>
   (\<exists>m. Dominators 10 0 (list_graph [0, 1, 2] [(0, 1), (1, 2)] True None) = Inr m) \<and>
   dominators_reachable 0 (list_graph [0, 1, 2] [(0, 1), (1, 2)] True None)
     [0 \<mapsto> {0}, 1 \<mapsto> {0, 1, 2}, 2 \<mapsto> {0, 1, 2}] \<and>
   Dominators_pass 0 (list_graph [0, 1, 2] [(0, 1), (1, 2)] True None)
      (NodeList (list_graph [0, 1, 2] [(0, 1), (1, 2)] True None))
      [0 \<mapsto> {0}, 1 \<mapsto> {0, 1, 2}, 2 \<mapsto> {0, 1, 2}] False
     = Inr ([0 \<mapsto> {0}, 2 \<mapsto> {0, 1, 2}, 1 \<mapsto> {0, 1}], True) \<and>
   dom_le [0 \<mapsto> {0}, 2 \<mapsto> {0, 1, 2}, 1 \<mapsto> {0, 1}]
     [0 \<mapsto> {0}, 1 \<mapsto> {0, 1, 2}, 2 \<mapsto> {0, 1, 2}] \<and>
   dom_size (list_graph [0, 1, 2] [(0, 1), (1, 2)] True None)
       [0 \<mapsto> {0}, 2 \<mapsto> {0, 1, 2}, 1 \<mapsto> {0, 1}]
     < dom_size (list_graph [0, 1, 2] [(0, 1), (1, 2)] True None)
       [0 \<mapsto> {0}, 1 \<mapsto> {0, 1, 2}, 2 \<mapsto> {0, 1, 2}]"
proof -
  have len: "length (NodeList (list_graph [0, 1, 2] [(0, 1), (1, 2)] True None))
     * length (NodeList (list_graph [0, 1, 2] [(0, 1), (1, 2)] True None)) < 10"
    by simp
  note t = Dominators_terminates [of "list_graph [0, 1, 2] [(0, 1), (1, 2)] True None" 10 0
      "[0 \<mapsto> {0}, 1 \<mapsto> {0, 1, 2}, 2 \<mapsto> {0, 1, 2}]"
      "[0 \<mapsto> {0}, 2 \<mapsto> {0, 1, 2}, 1 \<mapsto> {0, 1}]" True]
  show ?thesis
    using t len g3_preds g3_reach g3_pass by blast
qed

text \<open>
  Claim C7. When the node list contains the start node, the map that \<open>Dominators\<close>
  returns maps the start node to the singleton of the start node (and with listed
  predecessors and enough passes it does return a map), and no pass changes the entry
  of the start node.
\<close>

theorem Dominators_start:
  "start \<in> set (NodeList g) \<longrightarrow>
     (\<forall>m. Dominators fuel start g = Inr m \<longrightarrow> m start = Some {start}) \<and>
     (preds_listed start g \<and> length (NodeList g) * length (NodeList g) < fuel \<longrightarrow>
        (\<exists>m. Dominators fuel start g = Inr m \<and> m start = Some {start})) \<and>
     (Dominators_pass start g ns d ch = Inr (d1, ch1) \<longrightarrow> d1 start = d start)"
proof (intro impI conjI allI)
  let ?d0 = "Dominators_init start (set (NodeList g)) (NodeList g) Map.empty"
  assume s: "start \<in> set (NodeList g)"
  then have s0: "?d0 start = Some {start}" by (simp add: Dominators_init_apply)
  show r: "m start = Some {start}" if "Dominators fuel start g = Inr m" for m
    using Dominators_loop_start [of fuel start g ?d0 m] that s0
    by (simp add: Dominators_def)
  show "\<exists>m. Dominators fuel start g = Inr m \<and> m start = Some {start}"
    if h: "preds_listed start g \<and> length (NodeList g) * length (NodeList g) < fuel"
  proof -
    have i0: "dom_inv start g ?d0" by (rule dom_inv_init)
    from h dom_size_bound [OF i0] have sz: "dom_size g ?d0 < fuel" by simp
    from h have pl: "preds_listed start g" by simp
    from Dominators_loop_returns [OF i0 pl sz]
    obtain m where "Dominators fuel start g = Inr m" unfolding Dominators_def by blast
    with r [OF this] show ?thesis by blast
  qed
  show "d1 start = d start" if "Dominators_pass start g ns d ch = Inr (d1, ch1)"
    using that by (rule Dominators_pass_start)
qed

theorem Dominators_start_witness:
  "(0::int) \<in> set (NodeList (list_graph [0, 1, 2] [(0, 1), (1, 2)] True None)) \<and>
   preds_listed 0 (list_graph [0, 1, 2] [(0, 1), (1, 2)] True None) \<and>
   length (NodeList (list_graph [0, 1, 2] [(0, 1), (1, 2)] True None))
     * length (NodeList (list_graph [0, 1, 2] [(0, 1), (1, 2)] True None)) < 10 \<and>
   (\<exists>m. Dominators 10 0 (list_graph [0, 1, 2] [(0, 1), (1, 2)] True None) = Inr m \<and>
        m 0 = Some {0}) \<and>
   Dominators_pass 0 (list_graph [0, 1, 2] [(0, 1), (1, 2)] True None)
      (NodeList (list_graph [0, 1, 2] [(0, 1), (1, 2)] True None))
      [0 \<mapsto> {0}, 1 \<mapsto> {0, 1, 2}, 2 \<mapsto> {0, 1, 2}] False
     = Inr ([0 \<mapsto> {0}, 2 \<mapsto> {0, 1, 2}, 1 \<mapsto> {0, 1}], True) \<and>
   ([0 \<mapsto> {0}, 2 \<mapsto> {0, 1, 2}, 1 \<mapsto> {0, 1}] :: dom_map) 0
     = ([0 \<mapsto> {0}, 1 \<mapsto> {0, 1, 2}, 2 \<mapsto> {0, 1, 2}] :: dom_map) 0"
proof -
  have len: "length (NodeList (list_graph [0, 1, 2] [(0, 1), (1, 2)] True None))
     * length (NodeList (list_graph [0, 1, 2] [(0, 1), (1, 2)] True None)) < 10"
    and mem: "(0::int) \<in> set (NodeList (list_graph [0, 1, 2] [(0, 1), (1, 2)] True None))"
    by simp_all
  note t = Dominators_start [of 0 "list_graph [0, 1, 2] [(0, 1), (1, 2)] True None" 10
      "NodeList (list_graph [0, 1, 2] [(0, 1), (1, 2)] True None)"
      "[0 \<mapsto> {0}, 1 \<mapsto> {0, 1, 2}, 2 \<mapsto> {0, 1, 2}]" False
      "[0 \<mapsto> {0}, 2 \<mapsto> {0, 1, 2}, 1 \<mapsto> {0, 1}]" True]
  show ?thesis
    using t len mem g3_preds g3_pass by blast
qed


end
